theory Spec2Isabelle
  imports Main
begin

section \<open>Parsed JSON values and Python dictionaries\<close>

text \<open>
  The program works on the value returned by \<^verbatim>\<open>json.load\<close>: a \<^verbatim>\<open>dict\<close>, a
  \<^verbatim>\<open>list\<close>, a \<^verbatim>\<open>str\<close>, an \<^verbatim>\<open>int\<close>, a \<^verbatim>\<open>float\<close>, a \<^verbatim>\<open>bool\<close> or \<^verbatim>\<open>None\<close>.
  A Python \<^verbatim>\<open>dict\<close> keeps insertion order, and the order of rows, columns and sheets is
  observable, so a dictionary is an association list in insertion order. A \<^verbatim>\<open>float\<close>
  is carried as the text \<^verbatim>\<open>json.dumps\<close> prints for it (its \<^verbatim>\<open>repr\<close>, which determines
  the float). A character of a \<^verbatim>\<open>str\<close> is one \<open>char\<close>, so the strings of the model
  are those over the code points below 0x100, and \<open>length\<close> counts characters as
  \<^verbatim>\<open>len\<close> does.

  The cells of a row are Python values as well: a scalar taken over from the document,
  or the \<^verbatim>\<open>str\<close> returned by \<^verbatim>\<open>json.dumps\<close>, which is a \<open>JStr\<close>.
\<close>

datatype json =
    JNull
  | JBool bool
  | JInt int
  | JFloat string
  | JStr string
  | JArr "json list"
  | JObj "(string \<times> json) list"

type_synonym row = "(string \<times> json) list"
type_synonym sheets = "(string \<times> row list) list"

fun is_dict :: "json \<Rightarrow> bool" where
  "is_dict (JObj kvs) = True"
| "is_dict v = False"

fun is_list :: "json \<Rightarrow> bool" where
  "is_list (JArr xs) = True"
| "is_list v = False"

text \<open>
  \<^verbatim>\<open>d[k] = v\<close>: an existing key keeps its position and takes the new value, a new key
  goes to the end.
\<close>

fun dict_set :: "('k \<times> 'v) list \<Rightarrow> 'k \<Rightarrow> 'v \<Rightarrow> ('k \<times> 'v) list" where
  "dict_set [] k v = [(k, v)]"
| "dict_set ((k', v') # d) k v =
     (if k' = k then (k', v) # d else (k', v') # dict_set d k v)"

text \<open>\<^verbatim>\<open>d.update(other)\<close>: the pairs of \<open>other\<close> are stored one after the other.\<close>

fun dict_update :: "('k \<times> 'v) list \<Rightarrow> ('k \<times> 'v) list \<Rightarrow> ('k \<times> 'v) list" where
  "dict_update d [] = d"
| "dict_update d ((k, v) # other) = dict_update (dict_set d k v) other"

section \<open>\<^verbatim>\<open>json.dumps(v, ensure_ascii=False)\<close>\<close>

text \<open>\<^verbatim>\<open>str(n)\<close> for a Python integer: decimal digits, a minus sign when negative.\<close>

definition digit_char :: "nat \<Rightarrow> char" where
  "digit_char d = char_of (48 + d)"

fun show_nat :: "nat \<Rightarrow> string" where
  "show_nat n = (if n < 10 then [digit_char n]
                 else show_nat (n div 10) @ [digit_char (n mod 10)])"

declare show_nat.simps [simp del]

definition show_int :: "int \<Rightarrow> string" where
  "show_int i = (if i < 0 then CHR ''-'' # show_nat (nat (- i)) else show_nat (nat i))"

text \<open>
  The string encoder with \<^verbatim>\<open>ensure_ascii=False\<close>: the quote, the backslash and the
  control characters below 0x20 are escaped, every other character is copied.
\<close>

definition hex_char :: "nat \<Rightarrow> char" where
  "hex_char d = (if d < 10 then char_of (48 + d) else char_of (87 + d))"

definition escape_char :: "char \<Rightarrow> string" where
  "escape_char c =
     (if c = CHR 0x5C then [CHR 0x5C, CHR 0x5C]
      else if c = CHR 0x22 then [CHR 0x5C, CHR 0x22]
      else if c = CHR 0x08 then [CHR 0x5C, CHR ''b'']
      else if c = CHR 0x0C then [CHR 0x5C, CHR ''f'']
      else if c = CHR 0x0A then [CHR 0x5C, CHR ''n'']
      else if c = CHR 0x0D then [CHR 0x5C, CHR ''r'']
      else if c = CHR 0x09 then [CHR 0x5C, CHR ''t'']
      else if (of_char c :: nat) < 32
        then [CHR 0x5C, CHR ''u'', CHR ''0'', CHR ''0'',
              hex_char (of_char c div 16), hex_char (of_char c mod 16)]
      else [c])"

definition encode_basestring :: "string \<Rightarrow> string" where
  "encode_basestring s = CHR 0x22 # concat (map escape_char s) @ [CHR 0x22]"

text \<open>\<^verbatim>\<open>sep.join(parts)\<close>\<close>

fun join :: "string \<Rightarrow> string list \<Rightarrow> string" where
  "join sep [] = []"
| "join sep [x] = x"
| "join sep (x # y # ys) = x @ sep @ join sep (y # ys)"

fun json_dumps :: "json \<Rightarrow> string" where
  "json_dumps JNull = ''null''"
| "json_dumps (JBool b) = (if b then ''true'' else ''false'')"
| "json_dumps (JInt i) = show_int i"
| "json_dumps (JFloat r) = r"
| "json_dumps (JStr s) = encode_basestring s"
| "json_dumps (JArr xs) = ''['' @ join '', '' (map json_dumps xs) @ '']''"
| "json_dumps (JObj kvs) =
     ''{'' @ join '', '' (map (\<lambda>(k, v). encode_basestring k @ '': '' @ json_dumps v) kvs) @ ''}''"

section \<open>The flattener\<close>

text \<open>
  \<^verbatim>\<open>flatten(d, parent_key='', sep='.')\<close>. The loop over \<^verbatim>\<open>d.items()\<close> is
  \<open>flatten_items\<close>, which carries the dictionary \<^verbatim>\<open>items\<close> being filled.
\<close>

fun flatten :: "json \<Rightarrow> string \<Rightarrow> row"
  and flatten_items :: "(string \<times> json) list \<Rightarrow> string \<Rightarrow> row \<Rightarrow> row" where
  "flatten (JObj kvs) parent_key = flatten_items kvs parent_key []"
| "flatten JNull parent_key = dict_set [] parent_key JNull"
| "flatten (JBool b) parent_key = dict_set [] parent_key (JBool b)"
| "flatten (JInt i) parent_key = dict_set [] parent_key (JInt i)"
| "flatten (JFloat r) parent_key = dict_set [] parent_key (JFloat r)"
| "flatten (JStr s) parent_key = dict_set [] parent_key (JStr s)"
| "flatten (JArr xs) parent_key = dict_set [] parent_key (JArr xs)"
| "flatten_items [] parent_key items = items"
| "flatten_items ((k, v) # rest) parent_key items =
     (let new_key = (if parent_key \<noteq> [] then parent_key @ ''.'' @ k else k) in
      if is_dict v then flatten_items rest parent_key (dict_update items (flatten v new_key))
      else if is_list v then flatten_items rest parent_key (dict_set items new_key (JStr (json_dumps v)))
      else flatten_items rest parent_key (dict_set items new_key v))"

section \<open>The sheet planner\<close>

text \<open>The loop of the list branch: \<^verbatim>\<open>rows.append(...)\<close> for every item.\<close>

fun list_rows :: "json list \<Rightarrow> row list \<Rightarrow> row list" where
  "list_rows [] rows = rows"
| "list_rows (item # rest) rows =
     (if is_dict item then list_rows rest (rows @ [flatten item ''''])
      else list_rows rest (rows @ [dict_set [] ''value'' item]))"

text \<open>
  The loop of the dict branch over \<^verbatim>\<open>obj.items()\<close>, carrying \<^verbatim>\<open>sheets\<close> and
  \<^verbatim>\<open>remaining\<close>.
\<close>

fun object_loop :: "(string \<times> json) list \<Rightarrow> sheets \<Rightarrow> (string \<times> json) list
    \<Rightarrow> sheets \<times> (string \<times> json) list" where
  "object_loop [] sheets remaining = (sheets, remaining)"
| "object_loop ((k, JArr v) # rest) sheets remaining =
     (if list_all is_dict v
      then object_loop rest (dict_set sheets k (map (\<lambda>i. flatten i '''') v)) remaining
      else object_loop rest
             (dict_set sheets k (map (\<lambda>i. dict_set [] ''value'' (JStr (json_dumps i))) v))
             remaining)"
| "object_loop ((k, v) # rest) sheets remaining =
     object_loop rest sheets (dict_set remaining k v)"

fun make_sheets_from_obj :: "json \<Rightarrow> sheets" where
  "make_sheets_from_obj (JArr xs) = dict_set [] ''Sheet1'' (list_rows xs [])"
| "make_sheets_from_obj (JObj kvs) =
     (case object_loop kvs [] [] of (sheets, remaining) \<Rightarrow>
        let sheets = (if remaining \<noteq> [] then dict_set sheets ''Summary'' [flatten (JObj remaining) '''']
                      else sheets);
            sheets = (if sheets = [] then dict_set sheets ''Sheet1'' [flatten (JObj kvs) '''']
                      else sheets)
        in sheets)"
| "make_sheets_from_obj obj = dict_set [] ''Sheet1'' [dict_set [] ''value'' (JStr (json_dumps obj))]"

text \<open>
  What the dict branch stores, written as functions of the object: the rows of the sheet
  of one array (both branches of the test \<^verbatim>\<open>all(isinstance(i, dict) for i in v)\<close>), the
  sheets of the array-valued keys, and the pairs that go to \<^verbatim>\<open>remaining\<close>.
\<close>

definition sheet_rows :: "json list \<Rightarrow> row list" where
  "sheet_rows v =
     (if list_all is_dict v then map (\<lambda>i. flatten i '''') v
      else map (\<lambda>i. [(''value'', JStr (json_dumps i))]) v)"

fun array_sheets :: "(string \<times> json) list \<Rightarrow> sheets" where
  "array_sheets [] = []"
| "array_sheets ((k, JArr v) # rest) = (k, sheet_rows v) # array_sheets rest"
| "array_sheets ((k, v) # rest) = array_sheets rest"

definition remaining_of :: "(string \<times> json) list \<Rightarrow> (string \<times> json) list" where
  "remaining_of kvs = filter (\<lambda>(k, v). \<not> is_list v) kvs"

section \<open>The flattener, as the specification describes it\<close>

text \<open>
  The reference definition: every pair of an object contributes cells under its composed
  key, in traversal order; a nested object contributes the cells of its own flattening,
  an array one cell with its JSON text, a scalar one cell with itself. The row is the
  ordered mapping these contributions make: a key stands where it was first met and
  holds the value stored last.
\<close>

fun contributions :: "json \<Rightarrow> string \<Rightarrow> (string \<times> json) list" where
  "contributions (JObj kvs) p =
     concat (map (\<lambda>(k, v).
        let new_key = (if p \<noteq> [] then p @ ''.'' @ k else k) in
        (case v of
           JObj kvs' \<Rightarrow> contributions v new_key
         | JArr xs \<Rightarrow> [(new_key, JStr (json_dumps v))]
         | _ \<Rightarrow> [(new_key, v)])) kvs)"
| "contributions v p = [(p, v)]"

definition flatten_spec :: "json \<Rightarrow> string \<Rightarrow> row" where
  "flatten_spec d p = dict_update [] (contributions d p)"

section \<open>The names of the sheets the workbook writer emits\<close>

text \<open>\<^verbatim>\<open>sanitize_sheet_name(name, default='Sheet')\<close>\<close>

definition invalid :: "char list" where
  "invalid = [CHR 0x5C, CHR ''/'', CHR ''*'', CHR ''?'', CHR '':'', CHR ''['', CHR '']'']"

text \<open>
  \<^verbatim>\<open>str.isspace\<close> on one character, for the characters below 0x100: the ASCII white
  space, the separators 0x1C to 0x1F, NEL and the no-break space.
\<close>

definition py_isspace :: "char \<Rightarrow> bool" where
  "py_isspace c = (c \<in> set [CHR 0x09, CHR 0x0A, CHR 0x0B, CHR 0x0C, CHR 0x0D, CHR 0x1C,
     CHR 0x1D, CHR 0x1E, CHR 0x1F, CHR 0x20, CHR 0x85, CHR 0xA0])"

definition py_strip :: "string \<Rightarrow> string" where
  "py_strip s = rev (dropWhile py_isspace (rev (dropWhile py_isspace s)))"

definition sanitize_sheet_name :: "string \<Rightarrow> string \<Rightarrow> string" where
  "sanitize_sheet_name name default_name =
     (let s = map (\<lambda>ch. if ch \<in> set invalid then CHR ''_'' else ch) name;
          s = py_strip s;
          s = (if s = [] then default_name else s)
      in take 31 s)"

text \<open>
  The candidate the collision loop of \<^verbatim>\<open>write_excel_with_openpyxl\<close> tries in its
  round \<open>i\<close>: \<^verbatim>\<open>(base[:28] + f"_{i}") if len(base) > 28 else f"{base}_{i}"\<close>.
\<close>

definition suffixed :: "string \<Rightarrow> nat \<Rightarrow> string" where
  "suffixed base i =
     (if length base > 28 then take 28 base @ ''_'' @ show_nat i else base @ ''_'' @ show_nat i)"

text \<open>
  The loop tries the candidates of the rounds 1, 2, ... until one is free. Two rounds
  never give the same candidate, because the decimal numerals of two numbers differ;
  this is what makes the loop end.
\<close>

lemma digit_char_inj: "a < 10 \<Longrightarrow> b < 10 \<Longrightarrow> digit_char a = digit_char b \<Longrightarrow> a = b"
  unfolding digit_char_def by simp

lemma show_nat_not_Nil: "show_nat n \<noteq> []"
  by (subst show_nat.simps) simp

lemma show_nat_inj: "show_nat a = show_nat b \<Longrightarrow> a = b"
proof (induction a arbitrary: b rule: show_nat.induct)
  case (1 n)
  show ?case
  proof (cases "n < 10")
    case small: True
    show ?thesis
    proof (cases "b < 10")
      case True
      with small "1.prems" show ?thesis
        by (simp add: show_nat.simps [of n] show_nat.simps [of b] digit_char_inj)
    next
      case False
      with small "1.prems" show_nat_not_Nil [of "b div 10"] show ?thesis
        by (simp add: show_nat.simps [of n] show_nat.simps [of b])
    qed
  next
    case big: False
    show ?thesis
    proof (cases "b < 10")
      case True
      with big "1.prems" show_nat_not_Nil [of "n div 10"] show ?thesis
        by (simp add: show_nat.simps [of n] show_nat.simps [of b])
    next
      case False
      with big "1.prems" have "show_nat (n div 10) = show_nat (b div 10)"
        and d: "digit_char (n mod 10) = digit_char (b mod 10)"
        by (simp_all add: show_nat.simps [of n] show_nat.simps [of b])
      with "1.IH" big have "n div 10 = b div 10" by simp
      moreover from d have "n mod 10 = b mod 10" by (simp add: digit_char_inj)
      ultimately show ?thesis by (metis div_mult_mod_eq)
    qed
  qed
qed

lemma suffixed_inj: "suffixed base i = suffixed base j \<Longrightarrow> i = j"
  by (auto simp: suffixed_def show_nat_inj split: if_splits)

lemma finite_suffixed: "finite {j. suffixed base j \<in> set names}"
proof -
  have "inj (suffixed base)" by (rule injI) (rule suffixed_inj)
  then have "finite (suffixed base -` set names)" by (simp add: finite_vimageI)
  then show ?thesis by (simp add: vimage_def)
qed

text \<open>
  \<^verbatim>\<open>while name in wb.sheetnames: name = ...; i += 1\<close>, with the values of \<^verbatim>\<open>i\<close> and
  \<^verbatim>\<open>name\<close> on entry.
\<close>

function unique_name :: "string list \<Rightarrow> string \<Rightarrow> nat \<Rightarrow> string \<Rightarrow> string" where
  "unique_name sheetnames base i name =
     (if name \<in> set sheetnames then unique_name sheetnames base (i + 1) (suffixed base i)
      else name)"
  by pat_completeness auto
termination
proof (relation "measures [\<lambda>(sheetnames, base, i, name). card {j. i \<le> j \<and> suffixed base j \<in> set sheetnames},
                           \<lambda>(sheetnames, base, i, name). if name \<in> set sheetnames then 1 else 0]", goal_cases)
  case 1
  show ?case by simp
next
  case (2 sheetnames base i name)
  let ?A = "{j. i \<le> j \<and> suffixed base j \<in> set sheetnames}"
  let ?B = "{j. i + 1 \<le> j \<and> suffixed base j \<in> set sheetnames}"
  have fin: "finite ?A" using finite_suffixed [of base sheetnames] by (rule rev_finite_subset) auto
  show ?case
  proof (cases "suffixed base i \<in> set sheetnames")
    case True
    then have "i \<in> ?A" and "i \<notin> ?B" and "?B \<subseteq> ?A" by auto
    then have "?B \<subset> ?A" by blast
    with fin have "card ?B < card ?A" by (rule psubset_card_mono)
    then show ?thesis by simp
  next
    case False
    then have "?B = ?A" by (auto simp: Suc_le_eq le_less)
    with False 2 show ?thesis by simp
  qed
qed

declare unique_name.simps [simp del]

text \<open>
  The loop of \<^verbatim>\<open>write_excel_with_openpyxl\<close> over \<^verbatim>\<open>sheets.items()\<close>, as far as the
  titles go. The state is \<^verbatim>\<open>wb.sheetnames\<close> and the flag \<^verbatim>\<open>first\<close>. A new
  \<^verbatim>\<open>Workbook()\<close> has one sheet, titled \<^verbatim>\<open>Sheet\<close>, which is \<^verbatim>\<open>wb.active\<close>: the first
  round gives it its title, every later round appends a sheet. The result is the list
  of titles the workbook is saved with.
\<close>

fun write_sheets :: "(string \<times> row list) list \<Rightarrow> string list \<Rightarrow> bool \<Rightarrow> string list" where
  "write_sheets [] sheetnames first = sheetnames"
| "write_sheets ((raw_name, rows) # rest) sheetnames first =
     (let name = sanitize_sheet_name raw_name ''Sheet'';
          base = name;
          name = unique_name sheetnames base 1 name
      in if first then write_sheets rest (sheetnames[0 := name]) False
         else write_sheets rest (sheetnames @ [name]) False)"

definition write_excel_with_openpyxl :: "sheets \<Rightarrow> string list" where
  "write_excel_with_openpyxl sheets = write_sheets sheets [''Sheet''] True"


section \<open>Facts about dictionaries\<close>

lemma dict_set_not_Nil: "dict_set d k v \<noteq> []"
  by (cases d) (auto split: if_splits)

lemma keys_dict_set:
  "map fst (dict_set d k v) = (if k \<in> fst ` set d then map fst d else map fst d @ [k])"
  by (induction d) (auto simp: rev_image_eqI)

section \<open>Values that are not objects\<close>

lemma list_rows_append:
  "list_rows xs rows =
     rows @ map (\<lambda>item. if is_dict item then flatten item '''' else [(''value'', item)]) xs"
  by (induction xs arbitrary: rows) auto

text \<open>
  C8. For a value \<open>v\<close> that is not an object and any prefix \<open>p\<close>, \<open>flatten v p\<close> is the
  row with the single entry \<open>p\<close>, holding \<open>v\<close> itself.
\<close>

theorem flatten_non_object: "\<not> is_dict v \<Longrightarrow> flatten v p = [(p, v)]"
  by (cases v) simp_all

theorem flatten_non_object_witness:
  "\<not> is_dict (JArr [JInt 1, JNull]) \<and> flatten (JArr [JInt 1, JNull]) '''' = [('''', JArr [JInt 1, JNull])]"
  using flatten_non_object [of "JArr [JInt 1, JNull]" "''''"] by simp

text \<open>
  C7. A top-level scalar (string, number, boolean or null) gives exactly one sheet
  \<open>Sheet1\<close> with a single row whose single column \<open>value\<close> holds the JSON text of the
  scalar, as a string.
\<close>

theorem scalar_sheet:
  "\<not> is_dict obj \<Longrightarrow> \<not> is_list obj \<Longrightarrow>
   make_sheets_from_obj obj = [(''Sheet1'', [[(''value'', JStr (json_dumps obj))]])]"
  by (cases obj) simp_all

theorem scalar_sheet_witness:
  "\<not> is_dict (JStr ''hello'') \<and> \<not> is_list (JStr ''hello'') \<and>
   make_sheets_from_obj (JStr ''hello'') =
     [(''Sheet1'', [[(''value'', JStr [CHR 0x22, CHR ''h'', CHR ''e'', CHR ''l'', CHR ''l'', CHR ''o'', CHR 0x22])]])]"
  using scalar_sheet [of "JStr ''hello''"]
  by (simp add: encode_basestring_def escape_char_def)

text \<open>
  C4. A top-level array gives exactly one sheet, \<open>Sheet1\<close>, with one row per element in
  the order of the array: an object is flattened, any other element \<open>e\<close> becomes the row
  with the single column \<open>value\<close> holding \<open>e\<close> itself.
\<close>

theorem array_sheet:
  "make_sheets_from_obj (JArr xs) =
     [(''Sheet1'', map (\<lambda>item. if is_dict item then flatten item '''' else [(''value'', item)]) xs)]"
  by (simp add: list_rows_append)

text \<open>
  C3. For every parsed JSON value the planner returns a sheet collection that is not
  empty. The model has no failing branch, as the source has no \<^verbatim>\<open>raise\<close> and no
  operation that can fail on a parsed JSON value.
\<close>

theorem make_sheets_nonempty: "make_sheets_from_obj obj \<noteq> []"
proof (cases obj)
  case (JObj kvs)
  obtain sheets remaining where loop: "object_loop kvs [] [] = (sheets, remaining)"
    by (cases "object_loop kvs [] []")
  show ?thesis
  proof (cases "remaining = []")
    case True
    with JObj loop show ?thesis by (simp add: dict_set_not_Nil)
  next
    case False
    with JObj loop show ?thesis by (simp add: dict_set_not_Nil)
  qed
qed (simp_all add: dict_set_not_Nil)

section \<open>The flattener computes its reference definition\<close>

lemma distinct_dict_set: "distinct (map fst d) \<Longrightarrow> distinct (map fst (dict_set d k v))"
  by (induction d) (auto simp: keys_dict_set split: if_splits)

lemma distinct_dict_update: "distinct (map fst d) \<Longrightarrow> distinct (map fst (dict_update d other))"
  by (induction d other rule: dict_update.induct) (auto simp: distinct_dict_set)

lemma dict_update_append: "dict_update d (xs @ ys) = dict_update (dict_update d xs) ys"
  by (induction d xs rule: dict_update.induct) auto

lemma dict_set_twice: "dict_set (dict_set d k v') k v = dict_set d k v"
  by (induction d) auto

lemma dict_set_swap:
  "k \<noteq> k' \<Longrightarrow> k \<in> fst ` set d \<Longrightarrow>
   dict_set (dict_set d k' v') k v = dict_set (dict_set d k v) k' v'"
  by (induction d) (auto simp: rev_image_eqI)

lemma keys_set_dict_set: "fst ` set (dict_set d k v) = insert k (fst ` set d)"
proof -
  have "fst ` set (dict_set d k v) = set (map fst (dict_set d k v))" by simp
  also have "\<dots> = insert k (fst ` set d)" unfolding keys_dict_set by auto
  finally show ?thesis .
qed

text \<open>Storing into a key the dictionary has commutes with a later update that leaves the key alone.\<close>

lemma dict_set_dict_update_swap:
  "k \<in> fst ` set d \<Longrightarrow> k \<notin> fst ` set other \<Longrightarrow>
   dict_set (dict_update d other) k v = dict_update (dict_set d k v) other"
proof (induction d other rule: dict_update.induct)
  case (1 d)
  then show ?case by simp
next
  case (2 d k' v' other)
  then have "k \<noteq> k'" and "k \<notin> fst ` set other" by auto
  moreover from 2 have "k \<in> fst ` set (dict_set d k' v')" by (simp add: keys_set_dict_set)
  ultimately show ?case using 2 by (simp add: dict_set_swap)
qed

lemma dict_update_dict_set:
  "distinct (map fst a) \<Longrightarrow> dict_update d (dict_set a k v) = dict_set (dict_update d a) k v"
proof (induction a arbitrary: d)
  case Nil
  then show ?case by simp
next
  case (Cons x a)
  obtain k' v' where x: "x = (k', v')" by (cases x)
  show ?case
  proof (cases "k' = k")
    case True
    with Cons.prems x have "k \<notin> fst ` set a" by auto
    moreover have "k \<in> fst ` set (dict_set d k v')" by (simp add: keys_set_dict_set)
    ultimately have "dict_set (dict_update (dict_set d k v') a) k v
        = dict_update (dict_set (dict_set d k v') k v) a"
      by (rule dict_set_dict_update_swap [rotated])
    with True x show ?thesis by (simp add: dict_set_twice)
  next
    case False
    with Cons x show ?thesis by simp
  qed
qed

text \<open>Updating with a normalised list of pairs is updating with the list itself.\<close>

lemma dict_update_normalised:
  "distinct (map fst a) \<Longrightarrow> dict_update d (dict_update a xs) = dict_update (dict_update d a) xs"
proof (induction a xs arbitrary: d rule: dict_update.induct)
  case (1 a)
  then show ?case by simp
next
  case (2 a k v other)
  then show ?case by (simp add: distinct_dict_set dict_update_dict_set)
qed

lemma dict_update_row: "dict_update d (dict_update [] xs) = dict_update d xs"
  using dict_update_normalised [of "[]" d xs] by simp

lemma flatten_contributions:
  "flatten v p = dict_update [] (contributions v p)"
  "flatten_items kvs p items = dict_update items (contributions (JObj kvs) p)"
proof (induction v p and kvs p items rule: flatten_flatten_items.induct)
  case (9 k v rest parent_key items)
  show ?case
  proof (cases v)
    case (JObj kvs')
    with 9 show ?thesis
      by (simp add: Let_def dict_update_append dict_update_row)
  next
    case (JArr xs)
    with 9 show ?thesis by (simp add: Let_def dict_update_append)
  qed (use 9 in \<open>simp_all add: Let_def dict_update_append\<close>)
qed simp_all

text \<open>
  C6. On every object, and under every prefix, the flattener computes the row of the
  reference definition: each pair contributes under the key \<open>p.k\<close> (under \<open>k\<close> when the
  prefix is empty); a nested object contributes its own flattening under that key, a
  nested array its JSON text as one cell, a scalar itself.
\<close>

theorem flatten_refines_spec: "flatten (JObj kvs) p = flatten_spec (JObj kvs) p"
  unfolding flatten_spec_def by (rule flatten_contributions)

section \<open>What the dict branch of the planner computes\<close>

lemma object_loop_eq:
  "object_loop kvs sheets remaining =
     (dict_update sheets (array_sheets kvs), dict_update remaining (remaining_of kvs))"
  by (induction kvs sheets remaining rule: object_loop.induct)
     (simp_all add: remaining_of_def sheet_rows_def)

lemma dict_update_distinct: "distinct (map fst (d @ xs)) \<Longrightarrow> dict_update d xs = d @ xs"
proof (induction d xs rule: dict_update.induct)
  case (1 d)
  then show ?case by simp
next
  case (2 d k v other)
  from 2 have "k \<notin> fst ` set d" by auto
  then have "dict_set d k v = d @ [(k, v)]" by (induction d) auto
  with 2 show ?case by simp
qed

lemma keys_array_sheets: "fst ` set (array_sheets kvs) \<subseteq> fst ` set kvs"
  by (induction kvs rule: array_sheets.induct) auto

lemma distinct_array_sheets: "distinct (map fst kvs) \<Longrightarrow> distinct (map fst (array_sheets kvs))"
proof (induction kvs rule: array_sheets.induct)
  case (2 k v rest)
  from 2 have "k \<notin> fst ` set rest" by simp
  with keys_array_sheets [of rest] have "k \<notin> fst ` set (array_sheets rest)" by blast
  with 2 show ?case by simp
qed simp_all

lemma distinct_remaining_of: "distinct (map fst kvs) \<Longrightarrow> distinct (map fst (remaining_of kvs))"
  by (simp add: remaining_of_def distinct_map_filter)

lemma object_loop_distinct:
  "distinct (map fst kvs) \<Longrightarrow> object_loop kvs [] [] = (array_sheets kvs, remaining_of kvs)"
  by (simp add: object_loop_eq dict_update_distinct distinct_array_sheets distinct_remaining_of)

lemma array_sheets_lookup:
  "distinct (map fst kvs) \<Longrightarrow> (k, JArr v) \<in> set kvs \<Longrightarrow> map_of (array_sheets kvs) k = Some (sheet_rows v)"
proof (induction kvs rule: array_sheets.induct)
  case (2 k' v' rest)
  then show ?case using keys_array_sheets [of rest]
    by (auto simp: rev_image_eqI map_of_eq_None_iff [symmetric] simp del: map_of_eq_None_iff)
qed (auto simp: rev_image_eqI)

lemma map_of_dict_set: "map_of (dict_set d k v) = (map_of d)(k \<mapsto> v)"
  by (induction d) auto

text \<open>The planner on an object with distinct keys, in closed form.\<close>

lemma make_sheets_object:
  "distinct (map fst kvs) \<Longrightarrow>
   make_sheets_from_obj (JObj kvs) =
     (if remaining_of kvs \<noteq> []
      then dict_set (array_sheets kvs) ''Summary'' [flatten (JObj (remaining_of kvs)) '''']
      else if array_sheets kvs = [] then [(''Sheet1'', [flatten (JObj kvs) ''''])]
      else array_sheets kvs)"
  by (simp add: object_loop_distinct dict_set_not_Nil)

section \<open>Arrays under the keys of a top-level object\<close>

lemma array_sheet_kept:
  assumes "distinct (map fst kvs)" and "(k, JArr v) \<in> set kvs"
    and "k \<noteq> ''Summary'' \<or> remaining_of kvs = []"
  shows "map_of (make_sheets_from_obj (JObj kvs)) k = Some (sheet_rows v)"
proof -
  have look: "map_of (array_sheets kvs) k = Some (sheet_rows v)"
    using assms(1,2) by (rule array_sheets_lookup)
  then have "array_sheets kvs \<noteq> []" by auto
  with assms(3) look show ?thesis
    unfolding make_sheets_object [OF assms(1)] by (auto simp: map_of_dict_set)
qed

text \<open>
  C1, as the code has it. In an object with distinct keys, a key \<open>k\<close> whose array \<open>v\<close>
  is not made of objects only gets the sheet named \<open>k\<close>, with one row per element of
  \<open>v\<close> in order, each with the single column \<open>value\<close> holding the JSON text of the
  element as a string: every element is serialized, a scalar as well as an object or an
  array. This is stated for a key other than \<open>Summary\<close>, or an object all of whose
  values are arrays.
\<close>

theorem mixed_array_sheet:
  assumes "distinct (map fst kvs)" and "(k, JArr v) \<in> set kvs" and "\<not> list_all is_dict v"
    and "k \<noteq> ''Summary'' \<or> remaining_of kvs = []"
  shows "map_of (make_sheets_from_obj (JObj kvs)) k =
           Some (map (\<lambda>i. [(''value'', JStr (json_dumps i))]) v)"
  using array_sheet_kept [OF assms(1,2,4)] assms(3) by (simp add: sheet_rows_def)

theorem mixed_array_sheet_witness:
  "map_of (make_sheets_from_obj (JObj [(''tags'', JArr [JInt 1, JStr ''x'', JObj [(''a'', JInt 1)]])])) ''tags'' =
     Some [[(''value'', JStr (json_dumps (JInt 1)))],
           [(''value'', JStr (json_dumps (JStr ''x'')))],
           [(''value'', JStr (json_dumps (JObj [(''a'', JInt 1)])))]]"
  using mixed_array_sheet [of "[(''tags'', JArr [JInt 1, JStr ''x'', JObj [(''a'', JInt 1)]])]"
      "''tags''" "[JInt 1, JStr ''x'', JObj [(''a'', JInt 1)]]"]
  by (simp add: remaining_of_def)

text \<open>
  The claim as the specification states it fails on the specification's own example
  \<^verbatim>\<open>{"tags": [1, "x", {"a": 1}]}\<close>: the rows for \<^verbatim>\<open>1\<close> and \<^verbatim>\<open>"x"\<close> hold the strings
  \<^verbatim>\<open>1\<close> and \<^verbatim>\<open>"x"\<close> (with its quotes), not the number and the string themselves.
\<close>

theorem mixed_array_counterexample:
  "make_sheets_from_obj (JObj [(''tags'', JArr [JInt 1, JStr ''x'', JObj [(''a'', JInt 1)]])]) =
     [(''tags'', [[(''value'', JStr ''1'')],
                  [(''value'', JStr [CHR 0x22, CHR ''x'', CHR 0x22])],
                  [(''value'', JStr [CHR ''{'', CHR 0x22, CHR ''a'', CHR 0x22, CHR '':'', CHR '' '', CHR ''1'', CHR ''}''])]])]
   \<and> make_sheets_from_obj (JObj [(''tags'', JArr [JInt 1, JStr ''x'', JObj [(''a'', JInt 1)]])]) \<noteq>
     [(''tags'', [[(''value'', JInt 1)],
                  [(''value'', JStr ''x'')],
                  [(''value'', JStr [CHR ''{'', CHR 0x22, CHR ''a'', CHR 0x22, CHR '':'', CHR '' '', CHR ''1'', CHR ''}''])]])]"
  by code_simp

section \<open>The Summary sheet\<close>

text \<open>
  Where no array stands under the key \<open>Summary\<close>, the Summary sheet comes after the
  sheets of the array-valued keys, one sheet per such key, and holds one row.
\<close>

lemma summary_sheet_additional:
  assumes "distinct (map fst kvs)" and "remaining_of kvs \<noteq> []"
    and "''Summary'' \<notin> fst ` set (array_sheets kvs)"
  shows "make_sheets_from_obj (JObj kvs) =
           array_sheets kvs @ [(''Summary'', [flatten (JObj (remaining_of kvs)) ''''])]"
proof -
  have "dict_set d ''Summary'' r = d @ [(''Summary'', r)]" if "''Summary'' \<notin> fst ` set d"
    for d :: sheets and r
    using that by (induction d) auto
  with assms(2,3) show ?thesis
    unfolding make_sheets_object [OF assms(1)] by simp
qed

lemma summary_example:
  "make_sheets_from_obj (JObj [(''name'', JStr ''demo''), (''count'', JInt 3),
       (''items'', JArr [JObj [(''x'', JInt 1)]])]) =
     [(''items'', [[(''x'', JInt 1)]]),
      (''Summary'', [[(''name'', JStr ''demo''), (''count'', JInt 3)]])]"
  by code_simp

text \<open>
  C2. The object \<^verbatim>\<open>{"Summary": [{"x": 1}], "a": 1}\<close> has a key that is not an array, and
  one array-valued key. The planner returns one sheet only: the row of the remaining
  pairs is stored under the name \<open>Summary\<close>, where the sheet of the array stood, and
  the row \<^verbatim>\<open>{"x": 1}\<close> of the array is lost.
\<close>

theorem summary_replaces_array_sheet:
  "make_sheets_from_obj (JObj [(''Summary'', JArr [JObj [(''x'', JInt 1)]]), (''a'', JInt 1)]) =
     [(''Summary'', [[(''a'', JInt 1)]])]"
  by code_simp

section \<open>Empty arrays\<close>

text \<open>
  An empty array passes the test that all its elements are objects: its key gets a
  sheet without rows and does not go to the remaining pairs.
\<close>

lemma empty_array_sheet:
  assumes "distinct (map fst kvs)" and "(k, JArr []) \<in> set kvs"
    and "k \<noteq> ''Summary'' \<or> remaining_of kvs = []"
  shows "map_of (make_sheets_from_obj (JObj kvs)) k = Some []"
    and "k \<notin> fst ` set (remaining_of kvs)"
proof -
  show "map_of (make_sheets_from_obj (JObj kvs)) k = Some []"
    using array_sheet_kept [OF assms] by (simp add: sheet_rows_def)
  show "k \<notin> fst ` set (remaining_of kvs)"
  proof
    assume "k \<in> fst ` set (remaining_of kvs)"
    then obtain v where "(k, v) \<in> set kvs" and "\<not> is_list v"
      by (auto simp: remaining_of_def)
    with assms(1,2) have "v = JArr []" by (meson eq_key_imp_eq_value)
    with \<open>\<not> is_list v\<close> show False by simp
  qed
qed

text \<open>
  C10. In \<^verbatim>\<open>{"Summary": [], "a": 1}\<close> the key \<open>Summary\<close> holds an empty array, but the
  sheet named \<open>Summary\<close> that the planner returns has one row, the row of the remaining
  pair: the empty sheet of the key was replaced.
\<close>

theorem empty_array_sheet_replaced:
  "make_sheets_from_obj (JObj [(''Summary'', JArr []), (''a'', JInt 1)]) =
     [(''Summary'', [[(''a'', JInt 1)]])]"
  by code_simp

section \<open>The length of JSON texts\<close>

lemma length_escaped: "length s \<le> length (concat (map escape_char s))"
proof (induction s)
  case (Cons c s)
  have "1 \<le> length (escape_char c)" by (simp add: escape_char_def)
  with Cons show ?case by simp
qed simp

lemma length_encode_basestring: "length s + 2 \<le> length (encode_basestring s)"
  using length_escaped [of s] by (simp add: encode_basestring_def)

lemma length_encode_basestring_le: "length s \<le> length (encode_basestring s)"
  using length_encode_basestring [of s] by simp

lemma length_join: "x \<in> set xs \<Longrightarrow> length x \<le> length (join sep xs)"
  by (induction sep xs rule: join.induct) auto

lemma length_dumps_element:
  assumes "v \<in> set xs"
  shows "length (json_dumps v) + 2 \<le> length (json_dumps (JArr xs))"
proof -
  from assms have "json_dumps v \<in> set (map json_dumps xs)" by simp
  then have "length (json_dumps v) \<le> length (join '', '' (map json_dumps xs))"
    by (rule length_join)
  then show ?thesis by simp
qed

lemma length_dumps_value:
  assumes "(k, v) \<in> set kvs"
  shows "length (json_dumps v) \<le> length (json_dumps (JObj kvs))"
proof -
  let ?f = "\<lambda>(k, v). encode_basestring k @ '': '' @ json_dumps v"
  from assms have "?f (k, v) \<in> ?f ` set kvs" by (rule imageI)
  then have "?f (k, v) \<in> set (map ?f kvs)" by simp
  then have "length (?f (k, v)) \<le> length (join '', '' (map ?f kvs))" by (rule length_join)
  then show ?thesis by simp
qed

text \<open>A string cell of a flattened value is not longer than the JSON text of the value.\<close>

lemma contributions_cell_length:
  "(k, JStr s) \<in> set (contributions v p) \<Longrightarrow> length s \<le> length (json_dumps v)"
proof (induction v p arbitrary: k s rule: contributions.induct)
  case (1 kvs p)
  from "1.prems" obtain k' v' where in_kvs: "(k', v') \<in> set kvs"
    and cell: "(k, JStr s) \<in> set (let new_key = (if p \<noteq> [] then p @ ''.'' @ k' else k') in
        (case v' of JObj kvs' \<Rightarrow> contributions v' new_key
         | JArr xs \<Rightarrow> [(new_key, JStr (json_dumps v'))]
         | _ \<Rightarrow> [(new_key, v')]))"
    by auto
  have "length s \<le> length (json_dumps v')"
  proof (cases v')
    case (JObj kvs')
    with cell in_kvs "1.IH" [of "(k', v')" k' v' _ kvs' k s] show ?thesis
      by (simp add: Let_def)
  next
    case (JStr s')
    with cell length_encode_basestring [of s'] show ?thesis by (simp add: Let_def)
  qed (use cell in \<open>simp_all add: Let_def\<close>)
  with length_dumps_value [OF in_kvs] show ?case by simp
qed (simp_all add: length_encode_basestring_le)

lemma set_dict_set: "set (dict_set d k v) \<subseteq> insert (k, v) (set d)"
  by (induction d) (auto split: if_splits)

lemma set_dict_update: "set (dict_update d xs) \<subseteq> set d \<union> set xs"
proof (induction d xs rule: dict_update.induct)
  case (2 d k v other)
  with set_dict_set [of d k v] show ?case by auto
qed simp

lemma flatten_cell_length:
  assumes "(k, JStr s) \<in> set (flatten v p)"
  shows "length s \<le> length (json_dumps v)"
proof -
  from assms set_dict_update [of "[]" "contributions v p"]
  have "(k, JStr s) \<in> set (contributions v p)"
    by (auto simp: flatten_contributions(1))
  then show ?thesis by (rule contributions_cell_length)
qed

lemma sheet_rows_cell:
  assumes "r \<in> set (sheet_rows v)" and "(k, JStr s) \<in> set r"
  shows "k = ''value'' \<or> length s < length (json_dumps (JArr v))"
proof (cases "list_all is_dict v")
  case True
  with assms(1) obtain i where "i \<in> set v" and "r = flatten i ''''"
    by (auto simp: sheet_rows_def)
  with assms(2) flatten_cell_length [of k s i "''''"] length_dumps_element [of i v]
  show ?thesis by simp
next
  case False
  with assms show ?thesis by (auto simp: sheet_rows_def)
qed

lemma no_entries:
  "array_sheets kvs = [] \<Longrightarrow> remaining_of kvs = [] \<Longrightarrow> kvs = []"
proof (cases kvs)
  case (Cons x rest)
  obtain k v where "x = (k, v)" by (cases x)
  with Cons show "array_sheets kvs = [] \<Longrightarrow> remaining_of kvs = [] \<Longrightarrow> kvs = []"
    by (cases v) (simp_all add: remaining_of_def)
qed simp

text \<open>
  An object whose values are all arrays never gets, from its arrays, the sheet the
  fallback would store: a row of a sheet of an array cannot hold the JSON text of the
  array itself under the name of its key.
\<close>

lemma array_sheets_not_fallback:
  assumes "remaining_of kvs = []"
  shows "array_sheets kvs \<noteq> [(''Sheet1'', [flatten (JObj kvs) ''''])]"
proof
  assume eq: "array_sheets kvs = [(''Sheet1'', [flatten (JObj kvs) ''''])]"
  then obtain x rest where kvs: "kvs = x # rest" by (cases kvs) auto
  obtain k v where x: "x = (k, v)" by (cases x)
  from assms kvs x obtain xs where v: "v = JArr xs" and rem: "remaining_of rest = []"
    by (cases v) (auto simp: remaining_of_def split: if_splits)
  from eq kvs x v have "array_sheets rest = []" by simp
  then have rest: "rest = []" using rem by (rule no_entries)
  from eq kvs x v rest
  have "k = ''Sheet1''" and rows: "sheet_rows xs = [[(''Sheet1'', JStr (json_dumps (JArr xs)))]]"
    by simp_all
  from rows have "[(''Sheet1'', JStr (json_dumps (JArr xs)))] \<in> set (sheet_rows xs)" by simp
  from sheet_rows_cell [OF this, of "''Sheet1''" "json_dumps (JArr xs)"]
  show False by simp
qed

text \<open>
  C5. For a top-level object (with distinct keys, as every \<^verbatim>\<open>dict\<close> has), the
  planner returns the fallback, the one sheet \<open>Sheet1\<close> with the whole object flattened
  as its single row, exactly when the object has no array-valued key and no remaining
  pair. The empty object gives \<open>Sheet1\<close> with one empty row; \<^verbatim>\<open>{"a": 1, "b": 2}\<close> gives
  the one sheet \<open>Summary\<close> with the row \<^verbatim>\<open>{a: 1, b: 2}\<close>.
\<close>

theorem sheet1_fallback:
  assumes "distinct (map fst kvs)"
  shows "((make_sheets_from_obj (JObj kvs) = [(''Sheet1'', [flatten (JObj kvs) ''''])])
           = (filter (\<lambda>(k, v). is_list v) kvs = [] \<and> remaining_of kvs = []))
       \<and> make_sheets_from_obj (JObj []) = [(''Sheet1'', [[]])]
       \<and> make_sheets_from_obj (JObj [(''a'', JInt 1), (''b'', JInt 2)]) =
           [(''Summary'', [[(''a'', JInt 1), (''b'', JInt 2)]])]"
proof (intro conjI)
  have arr: "(array_sheets kvs = []) = (filter (\<lambda>(k, v). is_list v) kvs = [])"
    by (induction kvs rule: array_sheets.induct) simp_all
  show "(make_sheets_from_obj (JObj kvs) = [(''Sheet1'', [flatten (JObj kvs) ''''])])
           = (filter (\<lambda>(k, v). is_list v) kvs = [] \<and> remaining_of kvs = [])"
  proof (cases "remaining_of kvs = []")
    case True
    show ?thesis
    proof (cases "array_sheets kvs = []")
      case empty: True
      with True arr show ?thesis unfolding make_sheets_object [OF assms] by simp
    next
      case False
      with True arr array_sheets_not_fallback [OF True] show ?thesis
        unfolding make_sheets_object [OF assms] by simp
    qed
  next
    case False
    have "''Summary'' \<in> fst ` set (dict_set (array_sheets kvs) ''Summary''
        [flatten (JObj (remaining_of kvs)) ''''])"
      by (simp add: keys_set_dict_set)
    then have "dict_set (array_sheets kvs) ''Summary'' [flatten (JObj (remaining_of kvs)) '''']
        \<noteq> [(''Sheet1'', [flatten (JObj kvs) ''''])]"
      by auto
    with False show ?thesis unfolding make_sheets_object [OF assms] by simp
  qed
  show "make_sheets_from_obj (JObj []) = [(''Sheet1'', [[]])]" by simp
  show "make_sheets_from_obj (JObj [(''a'', JInt 1), (''b'', JInt 2)]) =
           [(''Summary'', [[(''a'', JInt 1), (''b'', JInt 2)]])]"
    by code_simp
qed

theorem sheet1_fallback_witness:
  "distinct (map fst [(''a'', JInt 1), (''b'', JInt 2)]) \<and>
   make_sheets_from_obj (JObj [(''a'', JInt 1), (''b'', JInt 2)]) \<noteq>
     [(''Sheet1'', [flatten (JObj [(''a'', JInt 1), (''b'', JInt 2)]) ''''])] \<and>
   make_sheets_from_obj (JObj [(''a'', JInt 1), (''b'', JInt 2)]) =
     [(''Summary'', [[(''a'', JInt 1), (''b'', JInt 2)]])]"
  using sheet1_fallback [of "[(''a'', JInt 1), (''b'', JInt 2)]"]
  by (simp add: remaining_of_def)

section \<open>The names the workbook writer emits\<close>

lemma sanitize_not_Nil: "sanitize_sheet_name name ''Sheet'' \<noteq> []"
  by (simp add: sanitize_sheet_name_def Let_def)

lemma length_sanitize: "length (sanitize_sheet_name name d) \<le> 31"
  by (simp add: sanitize_sheet_name_def Let_def)

lemma suffixed_not_Nil: "suffixed base i \<noteq> []"
  by (simp add: suffixed_def)

text \<open>
  What the collision loop returns: the name it was entered with when that is free, else
  the candidate of the first round from \<open>i\<close> on whose candidate is free.
\<close>

lemma unique_name_result:
  "unique_name sheetnames base i name = name \<and> name \<notin> set sheetnames \<or>
   (\<exists>j\<ge>i. unique_name sheetnames base i name = suffixed base j \<and>
      suffixed base j \<notin> set sheetnames \<and>
      (\<forall>k. i \<le> k \<and> k < j \<longrightarrow> suffixed base k \<in> set sheetnames))"
proof (induction sheetnames base i name rule: unique_name.induct)
  case (1 sheetnames base i name)
  show ?case
  proof (cases "name \<in> set sheetnames")
    case False
    then show ?thesis by (subst unique_name.simps) simp
  next
    case True
    let ?r = "unique_name sheetnames base (i + 1) (suffixed base i)"
    have step: "unique_name sheetnames base i name = ?r"
      using True by (subst unique_name.simps) simp
    from "1.IH" [OF True] consider
      (free) "?r = suffixed base i" "suffixed base i \<notin> set sheetnames"
      | (later) j where "i + 1 \<le> j" "?r = suffixed base j" "suffixed base j \<notin> set sheetnames"
          "\<forall>k. i + 1 \<le> k \<and> k < j \<longrightarrow> suffixed base k \<in> set sheetnames"
      by blast
    then show ?thesis
    proof cases
      case free
      with step have "i \<le> i \<and> unique_name sheetnames base i name = suffixed base i \<and>
          suffixed base i \<notin> set sheetnames \<and>
          (\<forall>k. i \<le> k \<and> k < i \<longrightarrow> suffixed base k \<in> set sheetnames)"
        by auto
      then show ?thesis by blast
    next
      case later
      have "suffixed base i \<in> set sheetnames"
      proof (rule ccontr)
        assume "suffixed base i \<notin> set sheetnames"
        then have "?r = suffixed base i" by (subst unique_name.simps) simp
        with later(2) have "suffixed base i = suffixed base j" by simp
        then have "i = j" by (rule suffixed_inj)
        with later(1) show False by simp
      qed
      with later(4) have "\<forall>k. i \<le> k \<and> k < j \<longrightarrow> suffixed base k \<in> set sheetnames"
        by (metis Suc_eq_plus1 Suc_leI le_neq_implies_less)
      with later step have "i \<le> j \<and> unique_name sheetnames base i name = suffixed base j \<and>
          suffixed base j \<notin> set sheetnames \<and>
          (\<forall>k. i \<le> k \<and> k < j \<longrightarrow> suffixed base k \<in> set sheetnames)"
        by simp
      then show ?thesis by blast
    qed
  qed
qed

lemma unique_name_free: "unique_name sheetnames base i name \<notin> set sheetnames"
  using unique_name_result [of sheetnames base i name] by auto

lemma unique_name_not_Nil: "name \<noteq> [] \<Longrightarrow> unique_name sheetnames base i name \<noteq> []"
  using unique_name_result [of sheetnames base i name] suffixed_not_Nil by auto

lemma distinct_update_fresh:
  "distinct xs \<Longrightarrow> n \<notin> set xs \<Longrightarrow> distinct (xs[i := n])"
  by (rule distinct_list_update) simp_all

lemma write_sheets_names:
  "distinct sheetnames \<Longrightarrow> [] \<notin> set sheetnames \<Longrightarrow>
   distinct (write_sheets sheets sheetnames first) \<and> [] \<notin> set (write_sheets sheets sheetnames first)"
proof (induction sheets sheetnames first rule: write_sheets.induct)
  case (1 sheetnames first)
  then show ?case by simp
next
  case (2 raw_name rows rest sheetnames first)
  let ?base = "sanitize_sheet_name raw_name ''Sheet''"
  let ?name = "unique_name sheetnames ?base 1 ?base"
  have free: "?name \<notin> set sheetnames" by (rule unique_name_free)
  have ne: "?name \<noteq> []" by (rule unique_name_not_Nil) (rule sanitize_not_Nil)
  show ?case
  proof (cases first)
    case True
    from "2.prems"(1) free have "distinct (sheetnames[0 := ?name])" by (rule distinct_update_fresh)
    moreover from "2.prems" ne have "[] \<notin> set (sheetnames[0 := ?name])"
      using set_update_subset_insert [of sheetnames 0 ?name] by auto
    ultimately show ?thesis using "2.IH"(1) [OF refl refl refl True] True by (simp add: Let_def)
  next
    case False
    from "2.prems" free have "distinct (sheetnames @ [?name])" by simp
    moreover from "2.prems" ne have "[] \<notin> set (sheetnames @ [?name])" by auto
    ultimately show ?thesis using "2.IH"(2) [OF refl refl refl False] False by (simp add: Let_def)
  qed
qed

text \<open>
  For every sheet collection, the titles the workbook is saved with are pairwise
  distinct, and none is empty.
\<close>

lemma emitted_names_distinct_nonempty:
  "distinct (write_excel_with_openpyxl sheets) \<and> [] \<notin> set (write_excel_with_openpyxl sheets)"
  unfolding write_excel_with_openpyxl_def by (rule write_sheets_names) simp_all

section \<open>A workbook with 101 sheets whose names agree on their first 31 characters\<close>

text \<open>
  The document \<^verbatim>\<open>{k0: [], k1: [], ..., k100: []}\<close> whose key \<open>kj\<close> is 31 times the letter
  \<open>a\<close> followed by \<open>j\<close> times the letter \<open>b\<close>: 101 distinct keys, all sanitized to the
  same 31 letters.
\<close>

definition colliding_key :: "nat \<Rightarrow> string" where
  "colliding_key j = replicate 31 (CHR ''a'') @ replicate j (CHR ''b'')"

definition colliding_document :: json where
  "colliding_document = JObj (map (\<lambda>j. (colliding_key j, JArr [])) [0..<101])"

lemma py_strip_id:
  assumes "s \<noteq> []" and "\<not> py_isspace (hd s)" and "\<not> py_isspace (last s)"
  shows "py_strip s = s"
proof -
  from assms(1,2) have "dropWhile py_isspace s = s" by (cases s) simp_all
  moreover from assms(1,3) have "dropWhile py_isspace (rev s) = rev s"
    by (cases "rev s") (simp_all add: last_rev [symmetric] del: last_rev)
  ultimately show ?thesis by (simp add: py_strip_def)
qed

lemma sanitize_colliding_key:
  "sanitize_sheet_name (colliding_key j) ''Sheet'' = replicate 31 (CHR ''a'')"
proof -
  let ?s = "colliding_key j"
  have same: "map (\<lambda>ch. if ch \<in> set invalid then CHR ''_'' else ch) ?s = ?s"
    by (simp add: colliding_key_def invalid_def)
  have "hd ?s = CHR ''a''" by (simp add: colliding_key_def hd_append)
  moreover have "last ?s = CHR ''a'' \<or> last ?s = CHR ''b''"
    by (cases j) (simp_all add: colliding_key_def)
  moreover have nonempty: "?s \<noteq> []" by (simp add: colliding_key_def)
  ultimately have strip: "py_strip ?s = ?s"
    by (intro py_strip_id) (auto simp: py_isspace_def)
  have "sanitize_sheet_name ?s ''Sheet'' = take 31 ?s"
    unfolding sanitize_sheet_name_def Let_def same strip using nonempty by simp
  then show ?thesis by (simp add: colliding_key_def)
qed

lemma suffixed_not_base:
  "suffixed (replicate 31 (CHR ''a'')) j \<noteq> replicate 31 (CHR ''a'')"
proof
  assume "suffixed (replicate 31 (CHR ''a'')) j = replicate 31 (CHR ''a'')"
  then have "(replicate 28 (CHR ''a'') @ CHR ''_'' # show_nat j) ! 28 = replicate 31 (CHR ''a'') ! 28"
    by (simp add: suffixed_def)
  then show False by (simp add: nth_append)
qed

text \<open>
  When the base and the candidates of the rounds below \<open>m\<close> are taken, the loop returns
  the candidate of round \<open>m\<close>.
\<close>

lemma unique_name_next:
  assumes "1 \<le> m" and "\<And>j. suffixed base j \<noteq> base"
  shows "unique_name (base # map (suffixed base) [1..<m]) base 1 base = suffixed base m"
proof -
  let ?names = "base # map (suffixed base) [1..<m]"
  have taken: "suffixed base k \<in> set ?names \<longleftrightarrow> 1 \<le> k \<and> k < m" for k
    using assms(2) [of k] suffixed_inj [of base k] by auto
  from unique_name_result [of ?names base 1 base]
  obtain j where "1 \<le> j" and res: "unique_name ?names base 1 base = suffixed base j"
    and free: "suffixed base j \<notin> set ?names"
    and below: "\<forall>k. 1 \<le> k \<and> k < j \<longrightarrow> suffixed base k \<in> set ?names"
    by auto
  from free have "\<not> (1 \<le> j \<and> j < m)" unfolding taken .
  with \<open>1 \<le> j\<close> have "m \<le> j" by simp
  moreover have "\<not> m < j"
  proof
    assume "m < j"
    with below assms(1) have "suffixed base m \<in> set ?names" by blast
    then have "1 \<le> m \<and> m < m" unfolding taken .
    then show False by simp
  qed
  ultimately have "j = m" by simp
  with res show ?thesis by simp
qed

lemma write_sheets_colliding:
  assumes "list_all (\<lambda>sheet. sanitize_sheet_name (fst sheet) ''Sheet'' = base) sheets"
    and "\<And>j. suffixed base j \<noteq> base" and "1 \<le> m"
  shows "write_sheets sheets (base # map (suffixed base) [1..<m]) False =
           base # map (suffixed base) [1..<m + length sheets]"
  using assms(1,3)
proof (induction sheets arbitrary: m)
  case Nil
  then show ?case by simp
next
  case (Cons sheet sheets)
  obtain raw_name rows where sheet: "sheet = (raw_name, rows)" by (cases sheet)
  from Cons.prems sheet have base: "sanitize_sheet_name raw_name ''Sheet'' = base"
    and rest: "list_all (\<lambda>sheet. sanitize_sheet_name (fst sheet) ''Sheet'' = base) sheets"
    by simp_all
  have name: "unique_name (base # map (suffixed base) [1..<m]) base 1 base = suffixed base m"
    using Cons.prems(2) assms(2) by (rule unique_name_next)
  have "(base # map (suffixed base) [1..<m]) @ [suffixed base m]
      = base # map (suffixed base) [1..<Suc m]"
    using Cons.prems(2) by simp
  moreover have "write_sheets sheets (base # map (suffixed base) [1..<Suc m]) False =
      base # map (suffixed base) [1..<Suc m + length sheets]"
    using rest by (rule Cons.IH) simp
  ultimately show ?case using sheet base name by (simp add: Let_def)
qed

lemma planned_colliding_sheets:
  "make_sheets_from_obj colliding_document = map (\<lambda>j. (colliding_key j, [])) [0..<101]"
proof -
  let ?kvs = "map (\<lambda>j. (colliding_key j, JArr [])) [0..<101]"
  have "inj colliding_key"
  proof (rule injI)
    fix i j assume "colliding_key i = colliding_key j"
    then have "length (colliding_key i) = length (colliding_key j)" by simp
    then show "i = j" by (simp add: colliding_key_def)
  qed
  then have dist: "distinct (map fst ?kvs)"
    by (simp add: comp_def distinct_map inj_on_def inj_def del: upt_Suc)
  have rem: "remaining_of (map (\<lambda>j. (colliding_key j, JArr [])) js) = []" for js
    by (induction js) (simp_all add: remaining_of_def)
  have arr: "array_sheets (map (\<lambda>j. (colliding_key j, JArr [])) js)
      = map (\<lambda>j. (colliding_key j, [])) js" for js
    by (induction js) (simp_all add: sheet_rows_def)
  have "map (\<lambda>j. (colliding_key j, [] :: row list)) [0..<101] \<noteq> []" by simp
  then show ?thesis
    unfolding colliding_document_def make_sheets_object [OF dist] rem arr by simp
qed

lemma colliding_names:
  "write_excel_with_openpyxl (make_sheets_from_obj colliding_document) =
     replicate 31 (CHR ''a'') # map (suffixed (replicate 31 (CHR ''a''))) [1..<101]"
proof -
  let ?base = "replicate 31 (CHR ''a'')"
  let ?rest = "map (\<lambda>j. (colliding_key j, [] :: row list)) [1..<101]"
  have split: "map (\<lambda>j. (colliding_key j, [] :: row list)) [0..<101] = (colliding_key 0, []) # ?rest"
    by (simp add: upt_conv_Cons del: upt_Suc)
  have "?base \<noteq> ''Sheet''"
  proof
    assume "?base = ''Sheet''"
    then have "length ?base = length ''Sheet''" by (rule arg_cong)
    then show False by simp
  qed
  then have first: "unique_name [''Sheet''] ?base 1 ?base = ?base"
    by (subst unique_name.simps) simp
  have "list_all (\<lambda>sheet. sanitize_sheet_name (fst sheet) ''Sheet'' = ?base) ?rest"
    by (simp add: list_all_iff sanitize_colliding_key del: upt_Suc)
  from write_sheets_colliding [OF this suffixed_not_base, of 1]
  have "write_sheets ?rest [?base] False = ?base # map (suffixed ?base) [1..<101]"
    by (simp del: upt_Suc)
  then show ?thesis
    unfolding planned_colliding_sheets write_excel_with_openpyxl_def split
    by (simp add: sanitize_colliding_key first [unfolded One_nat_def] Let_def del: upt_Suc)
qed

text \<open>
  C9. For the document above, the last title the workbook is saved with is 28 times the
  letter \<open>a\<close> followed by \<open>_100\<close>: it has 32 characters, so not every emitted name has
  at most 31.
\<close>

theorem emitted_name_too_long:
  "last (write_excel_with_openpyxl (make_sheets_from_obj colliding_document)) =
     replicate 28 (CHR ''a'') @ ''_100''
   \<and> length (last (write_excel_with_openpyxl (make_sheets_from_obj colliding_document))) = 32
   \<and> \<not> list_all (\<lambda>name. length name \<le> 31)
         (write_excel_with_openpyxl (make_sheets_from_obj colliding_document))"
proof -
  let ?names = "write_excel_with_openpyxl (make_sheets_from_obj colliding_document)"
  have digits: "show_nat 100 = ''100''" by code_simp
  have last: "last ?names = suffixed (replicate 31 (CHR ''a'')) 100"
    unfolding colliding_names by (simp add: last_map del: upt_Suc)
  then have eq: "last ?names = replicate 28 (CHR ''a'') @ ''_100''"
    by (simp add: suffixed_def digits)
  have "?names \<noteq> []" unfolding colliding_names by simp
  then have "last ?names \<in> set ?names" by (rule last_in_set)
  moreover from eq have len: "length (last ?names) = 32" by simp
  then have "\<not> length (last ?names) \<le> 31" by simp
  ultimately have "\<not> list_all (\<lambda>name. length name \<le> 31) ?names"
    unfolding list_all_iff by blast
  with eq len show ?thesis by simp
qed

section \<open>Workbooks with fewer than 100 sheets\<close>

lemma length_show_nat:
  assumes "n < 100"
  shows "length (show_nat n) \<le> 2"
proof (cases "n < 10")
  case True
  then show ?thesis by (simp add: show_nat.simps [of n])
next
  case False
  from assms have "n div 10 < 10" by simp
  then have "length (show_nat (n div 10)) = 1" by (simp add: show_nat.simps [of "n div 10"])
  with False show ?thesis by (simp add: show_nat.simps [of n])
qed

lemma length_suffixed: "j < 100 \<Longrightarrow> length (suffixed base j) \<le> 31"
  using length_show_nat [of j] by (simp add: suffixed_def)

text \<open>The loop does not get past the round whose number is the number of taken names plus one.\<close>

lemma unique_name_length:
  assumes "length name \<le> 31" and "length sheetnames \<le> 98"
  shows "length (unique_name sheetnames base 1 name) \<le> 31"
proof -
  from unique_name_result [of sheetnames base 1 name] consider
    (same) "unique_name sheetnames base 1 name = name"
    | (round) j where "1 \<le> j" "unique_name sheetnames base 1 name = suffixed base j"
        "\<forall>k. 1 \<le> k \<and> k < j \<longrightarrow> suffixed base k \<in> set sheetnames"
    by blast
  then show ?thesis
  proof cases
    case same
    with assms(1) show ?thesis by simp
  next
    case round
    have "inj_on (suffixed base) {1..<j}" by (rule inj_onI) (rule suffixed_inj)
    then have "card (suffixed base ` {1..<j}) = j - 1" by (simp add: card_image)
    moreover from round(3) have "suffixed base ` {1..<j} \<subseteq> set sheetnames" by auto
    then have "card (suffixed base ` {1..<j}) \<le> card (set sheetnames)"
      by (simp add: card_mono)
    moreover have "card (set sheetnames) \<le> length sheetnames" by (rule card_length)
    ultimately have "j < 100" using assms(2) by simp
    with round(2) show ?thesis by (simp add: length_suffixed)
  qed
qed

lemma write_sheets_lengths:
  assumes "list_all (\<lambda>name. length name \<le> 31) sheetnames"
    and "length sheetnames + length sheets \<le> 99"
  shows "list_all (\<lambda>name. length name \<le> 31) (write_sheets sheets sheetnames False)"
  using assms
proof (induction sheets arbitrary: sheetnames)
  case Nil
  then show ?case by simp
next
  case (Cons sheet sheets)
  obtain raw_name rows where sheet: "sheet = (raw_name, rows)" by (cases sheet)
  let ?base = "sanitize_sheet_name raw_name ''Sheet''"
  let ?name = "unique_name sheetnames ?base 1 ?base"
  from Cons.prems(2) have "length sheetnames \<le> 98" by simp
  with length_sanitize have "length ?name \<le> 31" by (rule unique_name_length)
  with Cons.prems have "list_all (\<lambda>name. length name \<le> 31) (sheetnames @ [?name])"
    and "length (sheetnames @ [?name]) + length sheets \<le> 99"
    by simp_all
  then have "list_all (\<lambda>name. length name \<le> 31) (write_sheets sheets (sheetnames @ [?name]) False)"
    by (rule Cons.IH)
  with sheet show ?case by (simp add: Let_def)
qed

text \<open>
  For every sheet collection with fewer than 100 sheets, no emitted name has more than
  31 characters.
\<close>

lemma emitted_names_short:
  assumes "length sheets < 100"
  shows "list_all (\<lambda>name. length name \<le> 31) (write_excel_with_openpyxl sheets)"
proof (cases sheets)
  case Nil
  then show ?thesis by (simp add: write_excel_with_openpyxl_def)
next
  case (Cons sheet rest)
  obtain raw_name rows where sheet: "sheet = (raw_name, rows)" by (cases sheet)
  let ?base = "sanitize_sheet_name raw_name ''Sheet''"
  let ?name = "unique_name [''Sheet''] ?base 1 ?base"
  have "length ?name \<le> 31" by (rule unique_name_length) (simp_all add: length_sanitize)
  moreover from assms Cons have "length [?name] + length rest \<le> 99" by simp
  ultimately have "list_all (\<lambda>name. length name \<le> 31) (write_sheets rest [?name] False)"
    by (intro write_sheets_lengths) simp_all
  with Cons sheet show ?thesis by (simp add: write_excel_with_openpyxl_def Let_def)
qed

end
